theory Spec2Isabelle
  imports Main "HOL-Library.Word"
begin

unbundle bit_operations_syntax

section \<open>The contiguous frame pool of \<^verbatim>\<open>cont_frame_pool.C\<close>\<close>

text \<open>
  The development embeds the class \<^verbatim>\<open>ContFramePool\<close> of
  \<^verbatim>\<open>src/MP2/MP2_Sources/cont_frame_pool.C\<close>: the two-bit state codec
  (\<^verbatim>\<open>get_state\<close>, \<^verbatim>\<open>set_state\<close>), the constructor, \<^verbatim>\<open>get_frames\<close>,
  \<^verbatim>\<open>mark_inaccessible\<close>, the static \<^verbatim>\<open>release_frames\<close> and
  \<^verbatim>\<open>needed_info_frames\<close>.

  Modelling decisions.
  \<^item> Frame numbers, counts and addresses are \<open>nat\<close>. The source computes with
    \<^verbatim>\<open>unsigned long\<close>, \<^verbatim>\<open>unsigned int\<close> and \<^verbatim>\<open>int\<close>; the three agree with
    \<open>nat\<close> arithmetic as long as every frame number and byte address that occurs is
    below \<open>2^31\<close>. The one operation that leaves this range on small values is
    \<^verbatim>\<open>nFreeFrames -= _n_frames\<close>, whose unsigned wrap-around below zero is
    written out (\<open>unsigned_minus\<close>).
  \<^item> Physical memory is a byte-addressed store \<open>nat \<Rightarrow> 8 word\<close>; the member
    \<^verbatim>\<open>bitmap\<close> is an address into it and \<^verbatim>\<open>bitmap[i]\<close> is the byte at
    \<open>bitmap + i\<close>.
  \<^item> Pool objects live in an object store indexed by the address of the object
    (\<^verbatim>\<open>this\<close>); the pointers \<^verbatim>\<open>prev\<close>, \<^verbatim>\<open>next\<close> and the static
    \<^verbatim>\<open>frame_pools_list\<close> are optional addresses, \<open>None\<close> being \<^verbatim>\<open>nullptr\<close>.
    The store is total: the content found at an address before a constructor runs there
    is the value of the members the constructor does not initialise.
  \<^item> Every \<^verbatim>\<open>assert\<close> that fails halts the kernel; it is the \<open>Inl\<close> branch of a
    sum, named after the failure conditions of the specification.
\<close>

subsection \<open>Data\<close>

text \<open>
  Modelled from the spec: the constant \<^verbatim>\<open>FRAME_SIZE\<close> is declared in the header
  \<^verbatim>\<open>cont_frame_pool.H\<close>, which is not among the sources; the specification gives
  the frame size as 4096 bytes.
\<close>

definition FRAME_SIZE :: nat where
  "FRAME_SIZE = 4096"

text \<open>
  Modelled from the spec: the members of the class, \<^verbatim>\<open>nFreeFrames\<close> among them, are
  declared in the same absent header; the specification gives frame numbers and counts
  as 64-bit unsigned values, so an unsigned subtraction wraps around at \<open>2^64\<close>.
\<close>

definition ULONG_RANGE :: nat where
  "ULONG_RANGE = 2 ^ 64"

definition unsigned_minus :: "nat \<Rightarrow> nat \<Rightarrow> nat" where
  "unsigned_minus a b = (if b \<le> a then a - b else a + ULONG_RANGE - b)"

datatype FrameState = Free | Used | HoS

datatype error =
    CapacityExceeded
  | InsufficientFreeFrames
  | NoContiguousRegion
  | InvalidReservationTarget
  | UnknownFrame
  | NotHeadOfSequence
  | InvalidState

type_synonym memory = "nat \<Rightarrow> 8 word"

record pool =
  base_frame_no :: nat
  nframes :: nat
  nFreeFrames :: nat
  info_frame_no :: nat
  bitmap :: nat
  prev :: "nat option"
  next_pool :: "nat option"

record system =
  memory :: memory
  pools :: "nat \<Rightarrow> pool"
  frame_pools_list :: "nat option"

subsection \<open>The bitmap codec\<close>

text \<open>\<^verbatim>\<open>ContFramePool::get_state\<close>: the \<^verbatim>\<open>default\<close> branch of the switch prints
  an error and asserts false.\<close>

definition get_state :: "memory \<Rightarrow> pool \<Rightarrow> nat \<Rightarrow> error + FrameState" where
  "get_state m p frame_no =
     (let byte_index = frame_no div 4;
          bit_offset = (frame_no * 2) mod 8;
          state_bits = drop_bit bit_offset (m (bitmap p + byte_index)) AND 3
      in if state_bits = 0 then Inr Free
         else if state_bits = 1 then Inr Used
         else if state_bits = 2 then Inr HoS
         else Inl InvalidState)"

text \<open>The switch of \<^verbatim>\<open>ContFramePool::set_state\<close> that chooses \<^verbatim>\<open>state_bits\<close>.\<close>

fun state_bits_of :: "FrameState \<Rightarrow> 8 word" where
  "state_bits_of Free = 0"
| "state_bits_of Used = 1"
| "state_bits_of HoS = 2"

definition set_state :: "memory \<Rightarrow> pool \<Rightarrow> nat \<Rightarrow> FrameState \<Rightarrow> memory" where
  "set_state m p frame_no st =
     (let byte_index = frame_no div 4;
          bit_offset = (frame_no * 2) mod 8;
          state_bits = state_bits_of st;
          cleared = m (bitmap p + byte_index) AND NOT (push_bit bit_offset 3)
      in m(bitmap p + byte_index := cleared OR push_bit bit_offset state_bits))"

subsection \<open>Reservation and allocation\<close>

text \<open>The loop of \<^verbatim>\<open>mark_inaccessible\<close> over the frames after the head.\<close>

function mark_loop :: "memory \<Rightarrow> pool \<Rightarrow> nat \<Rightarrow> nat \<Rightarrow> error + memory" where
  "mark_loop m p current_frame_no end_frame_no =
     (if current_frame_no < end_frame_no then
        (case get_state m p current_frame_no of
           Inl e \<Rightarrow> Inl e
         | Inr st \<Rightarrow>
             if st \<noteq> Free then Inl InvalidReservationTarget
             else mark_loop (set_state m p current_frame_no Used) p
                    (current_frame_no + 1) end_frame_no)
      else Inr m)"
  by pat_completeness auto
termination
  by (relation "measure (\<lambda>(m, p, c, e). e - c)") auto

declare mark_loop.simps [simp del]

definition mark_inaccessible ::
  "memory \<Rightarrow> pool \<Rightarrow> nat \<Rightarrow> nat \<Rightarrow> error + memory \<times> pool" where
  "mark_inaccessible m p a_base_frame_no a_n_frames =
     (case get_state m p a_base_frame_no of
        Inl e \<Rightarrow> Inl e
      | Inr st \<Rightarrow>
          if st \<noteq> Free then Inl InvalidReservationTarget
          else if \<not> (a_base_frame_no + a_n_frames \<le> base_frame_no p + nframes p)
          then Inl InvalidReservationTarget
          else
            (case mark_loop (set_state m p a_base_frame_no HoS) p
                    (a_base_frame_no + 1) (a_base_frame_no + a_n_frames) of
               Inl e \<Rightarrow> Inl e
             | Inr m' \<Rightarrow> Inr (m', p\<lparr>nFreeFrames := unsigned_minus (nFreeFrames p) a_n_frames\<rparr>)))"

text \<open>The scan of \<^verbatim>\<open>get_frames\<close>; the loop state is the current frame, the first
  frame of the run being counted and the number of contiguous free frames found.\<close>

function get_frames_loop ::
  "memory \<Rightarrow> pool \<Rightarrow> nat \<Rightarrow> nat \<Rightarrow> nat \<Rightarrow> nat \<Rightarrow> error + nat \<times> memory \<times> pool" where
  "get_frames_loop m p a_n_frames current_frame_no first_frame_of_sequence
       n_contiguous_frames_found =
     (if current_frame_no < base_frame_no p + nframes p then
        (case get_state m p current_frame_no of
           Inl e \<Rightarrow> Inl e
         | Inr current_frame_state \<Rightarrow>
             if current_frame_state = Free then
               (let first' = (if n_contiguous_frames_found = 0 then current_frame_no
                              else first_frame_of_sequence);
                    found' = n_contiguous_frames_found + 1
                in if found' = a_n_frames then
                     (case mark_inaccessible m p first' found' of
                        Inl e \<Rightarrow> Inl e
                      | Inr (m', p') \<Rightarrow> Inr (first', m', p'))
                   else get_frames_loop m p a_n_frames (current_frame_no + 1) first' found')
             else get_frames_loop m p a_n_frames (current_frame_no + 1)
                    first_frame_of_sequence 0)
      else Inl NoContiguousRegion)"
  by pat_completeness auto
termination
  by (relation "measure (\<lambda>(m, p, n, c, f, k). base_frame_no p + nframes p - c)") auto

declare get_frames_loop.simps [simp del]

definition get_frames :: "memory \<Rightarrow> pool \<Rightarrow> nat \<Rightarrow> error + nat \<times> memory \<times> pool" where
  "get_frames m p a_n_frames =
     (if \<not> (nFreeFrames p \<ge> a_n_frames) then Inl InsufficientFreeFrames
      else if \<not> (a_n_frames \<le> nframes p) then Inl InsufficientFreeFrames
      else get_frames_loop m p a_n_frames (base_frame_no p) 0 0)"

definition needed_info_frames :: "nat \<Rightarrow> nat" where
  "needed_info_frames a_n_frames =
     a_n_frames div (4 * FRAME_SIZE) + (if a_n_frames mod (4 * FRAME_SIZE) > 0 then 1 else 0)"

subsection \<open>Construction and the registry\<close>

text \<open>The first loop of the constructor. It runs before \<^verbatim>\<open>bitmap\<close> is assigned,
  so the pool it is given still carries the value found in the object's storage.\<close>

function ctor_free_loop :: "memory \<Rightarrow> pool \<Rightarrow> nat \<Rightarrow> memory" where
  "ctor_free_loop m p i =
     (if i < base_frame_no p + nframes p
      then ctor_free_loop (set_state m p i Free) p (i + 1)
      else m)"
  by pat_completeness auto
termination
  by (relation "measure (\<lambda>(m, p, i). base_frame_no p + nframes p - i)") auto

declare ctor_free_loop.simps [simp del]

text \<open>Lines 173 to 181 of the constructor: the update of the static list.\<close>

definition link_pool :: "system \<Rightarrow> nat \<Rightarrow> system" where
  "link_pool s this =
     (let s1 = (case frame_pools_list s of
                  None \<Rightarrow> s\<lparr>frame_pools_list := Some this\<rparr>
                | Some h \<Rightarrow> s\<lparr>pools := (pools s)(h := (pools s h)\<lparr>next_pool := Some this\<rparr>)\<rparr>)
      in s1\<lparr>pools := (pools s1)(this := (pools s1 this)\<lparr>prev := frame_pools_list s1\<rparr>)\<rparr>)"

definition ContFramePool :: "system \<Rightarrow> nat \<Rightarrow> nat \<Rightarrow> nat \<Rightarrow> nat \<Rightarrow> error + system" where
  "ContFramePool s this a_base_frame_no a_n_frames a_info_frame_no =
     (if \<not> (a_n_frames \<le> FRAME_SIZE * 4) then Inl CapacityExceeded
      else
        (let p0 = (pools s this)\<lparr>base_frame_no := a_base_frame_no, nframes := a_n_frames,
                     nFreeFrames := a_n_frames, info_frame_no := a_info_frame_no\<rparr>;
             n_info_frames = needed_info_frames (nframes p0);
             m1 = ctor_free_loop (memory s) p0 (base_frame_no p0)
         in
           (case
              (if info_frame_no p0 = 0 then
                 (case get_frames m1
                         (p0\<lparr>bitmap := base_frame_no p0 * FRAME_SIZE,
                             info_frame_no := base_frame_no p0\<rparr>) n_info_frames of
                    Inl e \<Rightarrow> Inl e
                  | Inr (h, m2, p2) \<Rightarrow> Inr (m2, p2))
               else
                 (let p1 = p0\<lparr>bitmap := info_frame_no p0 * FRAME_SIZE\<rparr>
                  in Inr (set_state m1 p1 (info_frame_no p1) Used, p1)))
            of
              Inl e \<Rightarrow> Inl e
            | Inr (m2, p2) \<Rightarrow>
                Inr (link_pool (s\<lparr>memory := m2, pools := (pools s)(this := p2)\<rparr>) this))))"

subsection \<open>Release\<close>

text \<open>The inner loop of \<^verbatim>\<open>release_frames\<close>; the conjunction of its condition is
  evaluated left to right, so the state is read only inside the pool's range.\<close>

function release_loop :: "memory \<Rightarrow> pool \<Rightarrow> nat \<Rightarrow> error + memory \<times> pool" where
  "release_loop m p current_frame =
     (if current_frame < base_frame_no p + nframes p then
        (case get_state m p current_frame of
           Inl e \<Rightarrow> Inl e
         | Inr st \<Rightarrow>
             if st = Used then
               release_loop (set_state m p current_frame Free)
                 (p\<lparr>nFreeFrames := nFreeFrames p + 1\<rparr>) (current_frame + 1)
             else Inr (m, p))
      else Inr (m, p))"
  by pat_completeness auto
termination
  by (relation "measure (\<lambda>(m, p, c). base_frame_no p + nframes p - c)") auto

declare release_loop.simps [simp del]

text \<open>The body executed for the pool that owns the frame (lines 263 to 284).\<close>

definition release_in_pool :: "memory \<Rightarrow> pool \<Rightarrow> nat \<Rightarrow> error + memory \<times> pool" where
  "release_in_pool m p first_frame_no =
     release_loop (set_state m p first_frame_no Free)
       (p\<lparr>nFreeFrames := nFreeFrames p + 1\<rparr>) (first_frame_no + 1)"

text \<open>The walk over the list of pools. The \<^verbatim>\<open>next\<close> pointers may form a cycle,
  in which case the walk for a frame that no pool on the cycle owns does not return:
  the result \<open>None\<close>.\<close>

partial_function (option) release_walk ::
  "system \<Rightarrow> nat \<Rightarrow> nat option \<Rightarrow> (error + system) option" where
  "release_walk s first_frame_no current_pool =
     (case current_pool of
        None \<Rightarrow> Some (Inl UnknownFrame)
      | Some c \<Rightarrow>
          if first_frame_no \<ge> base_frame_no (pools s c) \<and>
             first_frame_no < base_frame_no (pools s c) + nframes (pools s c)
          then
            Some (case release_in_pool (memory s) (pools s c) first_frame_no of
                    Inl e \<Rightarrow> Inl e
                  | Inr (m, p) \<Rightarrow> Inr (s\<lparr>memory := m, pools := (pools s)(c := p)\<rparr>))
          else release_walk s first_frame_no (next_pool (pools s c)))"

definition release_frames :: "system \<Rightarrow> nat \<Rightarrow> (error + system) option" where
  "release_frames s first_frame_no = release_walk s first_frame_no (frame_pools_list s)"

subsection \<open>Observations used in the statements\<close>

text \<open>The test of \<^verbatim>\<open>release_frames\<close> whether a pool owns a frame.\<close>

definition in_pool :: "pool \<Rightarrow> nat \<Rightarrow> bool" where
  "in_pool p f \<longleftrightarrow> f \<ge> base_frame_no p \<and> f < base_frame_no p + nframes p"

text \<open>The pools met by following \<^verbatim>\<open>next\<close> from a pool, as \<^verbatim>\<open>release_frames\<close>
  and \<^verbatim>\<open>print_pool_info\<close> do; the fuel bounds the walk on a cyclic list.\<close>

fun registry_pools :: "nat \<Rightarrow> system \<Rightarrow> nat option \<Rightarrow> nat list" where
  "registry_pools 0 s current_pool = []"
| "registry_pools (Suc k) s current_pool =
     (case current_pool of
        None \<Rightarrow> []
      | Some c \<Rightarrow> c # registry_pools k s (next_pool (pools s c)))"

text \<open>The first pool on that walk that owns the frame.\<close>

fun find_owner :: "nat \<Rightarrow> system \<Rightarrow> nat \<Rightarrow> nat option \<Rightarrow> nat option" where
  "find_owner 0 s f current_pool = None"
| "find_owner (Suc k) s f current_pool =
     (case current_pool of
        None \<Rightarrow> None
      | Some c \<Rightarrow> if in_pool (pools s c) f then Some c
                  else find_owner k s f (next_pool (pools s c)))"

text \<open>A call \<^verbatim>\<open>pool->get_frames(n)\<close> on the object at address \<open>c\<close>.\<close>

definition pool_get_frames :: "system \<Rightarrow> nat \<Rightarrow> nat \<Rightarrow> error + nat \<times> system" where
  "pool_get_frames s c n =
     (case get_frames (memory s) (pools s c) n of
        Inl e \<Rightarrow> Inl e
      | Inr (h, m, p) \<Rightarrow> Inr (h, s\<lparr>memory := m, pools := (pools s)(c := p)\<rparr>))"

definition frame_numbers :: "pool \<Rightarrow> nat list" where
  "frame_numbers p = [base_frame_no p ..< base_frame_no p + nframes p]"


text \<open>The frames of allocated runs: heads and the used frames that follow them.\<close>

definition allocated_frames :: "memory \<Rightarrow> pool \<Rightarrow> nat list" where
  "allocated_frames m p =
     filter (\<lambda>f. get_state m p f = Inr HoS \<or> get_state m p f = Inr Used) (frame_numbers p)"

text \<open>A run of \<open>n\<close> consecutive free frames of the pool that starts at \<open>h\<close>.\<close>

definition free_run :: "memory \<Rightarrow> pool \<Rightarrow> nat \<Rightarrow> nat \<Rightarrow> bool" where
  "free_run m p h n \<longleftrightarrow>
     base_frame_no p \<le> h \<and> h + n \<le> base_frame_no p + nframes p \<and>
     list_all (\<lambda>f. get_state m p f = Inr Free) [h ..< h + n]"

text \<open>The invariants of the data model: every frame of the pool has one of the three
  states, the cached count is the number of free frames, and a used frame follows a
  head or another used frame.\<close>

definition states_valid :: "memory \<Rightarrow> pool \<Rightarrow> bool" where
  "states_valid m p \<longleftrightarrow>
     list_all (\<lambda>f. get_state m p f \<noteq> Inl InvalidState) (frame_numbers p)"


definition runs_headed :: "memory \<Rightarrow> pool \<Rightarrow> bool" where
  "runs_headed m p \<longleftrightarrow>
     list_all (\<lambda>f. get_state m p f = Inr Used \<longrightarrow>
                 base_frame_no p < f \<and>
                 (get_state m p (f - 1) = Inr HoS \<or> get_state m p (f - 1) = Inr Used))
       (frame_numbers p)"

text \<open>The addresses of the bitmap bytes that hold the states of the frames from
  \<open>lo\<close> up to \<open>hi\<close> (exclusive).\<close>

definition bitmap_bytes :: "pool \<Rightarrow> nat \<Rightarrow> nat \<Rightarrow> nat set" where
  "bitmap_bytes p lo hi = (\<lambda>f. bitmap p + f div 4) ` {lo ..< hi}"

subsection \<open>Concrete states\<close>

text \<open>Zero-filled object storage and a machine whose memory is all zero and that has
  no pool yet.\<close>

definition blank_pool :: pool where
  "blank_pool = \<lparr>base_frame_no = 0, nframes = 0, nFreeFrames = 0, info_frame_no = 0,
      bitmap = 0, prev = None, next_pool = None\<rparr>"

definition blank_system :: system where
  "blank_system = \<lparr>memory = (\<lambda>_. 0), pools = (\<lambda>_. blank_pool), frame_pools_list = None\<rparr>"



text \<open>Two pools of a hundred frames each, the frames 0 to 99 at the object 1 and the
  frames 100 to 199 at the object 2, each hosting its bitmap in its first frame. In
  the second pool the frames 150 and 151 are an allocated run.\<close>

definition two_pools :: system where
  "two_pools =
     \<lparr>memory = (\<lambda>_. 0)(0 := 2, 409625 := 2, 409637 := 96),
      pools = (\<lambda>_. blank_pool)
        (1 := \<lparr>base_frame_no = 0, nframes = 100, nFreeFrames = 99, info_frame_no = 0,
               bitmap = 0, prev = Some 1, next_pool = Some 2\<rparr>,
         2 := \<lparr>base_frame_no = 100, nframes = 100, nFreeFrames = 97, info_frame_no = 100,
               bitmap = 409600, prev = Some 1, next_pool = None\<rparr>),
      frame_pools_list = Some 1\<rparr>"

section \<open>Evaluation\<close>

text \<open>The equations that evaluate the operations on a concrete state.\<close>

lemmas code_defs =
  ContFramePool_def FRAME_SIZE_def needed_info_frames_def ctor_free_loop.simps
  get_frames_def get_frames_loop.simps mark_inaccessible_def mark_loop.simps
  get_state_def set_state_def link_pool_def Let_def release_frames_def
  release_walk.simps release_in_pool_def release_loop.simps unsigned_minus_def

lemma registry_pools_numeral:
  "registry_pools (numeral k) s current_pool =
     (case current_pool of
        None \<Rightarrow> []
      | Some c \<Rightarrow> c # registry_pools (pred_numeral k) s (next_pool (pools s c)))"
  by (simp add: numeral_eq_Suc)

lemma find_owner_numeral:
  "find_owner (numeral k) s f current_pool =
     (case current_pool of
        None \<Rightarrow> None
      | Some c \<Rightarrow> if in_pool (pools s c) f then Some c
                  else find_owner (pred_numeral k) s f (next_pool (pools s c)))"
  by (simp add: numeral_eq_Suc)

section \<open>The registry\<close>

text \<open>
  Claim C1 (the registry lists the pools in construction order). The constructor
  never advances \<^verbatim>\<open>frame_pools_list\<close>: every pool after the first is stored into
  the \<^verbatim>\<open>next\<close> member of the first pool. After three constructions, at the
  addresses 1, 2 and 3, the walk from the head visits the first and the third pool
  only.
\<close>

theorem registry_loses_second_pool:
  "\<exists>s1 s2 s3.
     ContFramePool blank_system 1 0 4 0 = Inr s1 \<and>
     ContFramePool s1 2 4 4 0 = Inr s2 \<and>
     ContFramePool s2 3 8 4 0 = Inr s3 \<and>
     frame_pools_list s3 = Some 1 \<and>
     registry_pools 10 s3 (frame_pools_list s3) = [1, 3]"
  by (simp add: code_defs blank_system_def blank_pool_def registry_pools_numeral)

section \<open>Release of a frame that is not a head\<close>

text \<open>
  Claim C2 (releasing a frame that is free or used fails with NotHeadOfSequence and
  changes nothing). \<^verbatim>\<open>release_frames\<close> never reads the state of the frame it is
  given. In a pool of four frames whose frame 0 is the head of the info run,
  releasing the free frame 1 succeeds and raises the count of free frames from 3 to 4;
  after frames 1 and 2 are allocated, releasing the used frame 2 succeeds, frees it
  and leaves the head 1 allocated.
\<close>

theorem release_frames_accepts_non_head:
  "\<exists>s1 s2 s3 s4.
     ContFramePool blank_system 1 0 4 0 = Inr s1 \<and>
     get_state (memory s1) (pools s1 1) 1 = Inr Free \<and>
     nFreeFrames (pools s1 1) = 3 \<and>
     release_frames s1 1 = Some (Inr s2) \<and>
     nFreeFrames (pools s2 1) = 4 \<and>
     pool_get_frames s1 1 2 = Inr (1, s3) \<and>
     get_state (memory s3) (pools s3 1) 2 = Inr Used \<and>
     nFreeFrames (pools s3 1) = 1 \<and>
     release_frames s3 2 = Some (Inr s4) \<and>
     nFreeFrames (pools s4 1) = 2 \<and>
     map (get_state (memory s4) (pools s4 1)) [0, 1, 2, 3] =
       [Inr HoS, Inr HoS, Inr Free, Inr Free]"
  by (simp add: code_defs blank_system_def blank_pool_def pool_get_frames_def)

section \<open>The codec\<close>

lemma bit_offset_eq: "(f * 2) mod 8 = (f mod 4) * (2::nat)"
  by presburger

lemma bit_offset_cases: "(f * 2) mod 8 \<in> {0, 2, 4, 6::nat}"
proof -
  have "(f * 2) mod 8 = 0 \<or> (f * 2) mod 8 = 2 \<or> (f * 2) mod 8 = 4 \<or> (f * 2) mod 8 = 6"
    by presburger
  then show ?thesis by auto
qed

lemma bit_offset_inj:
  assumes "f div 4 = g div 4" "(f * 2) mod 8 = (g * 2) mod (8::nat)"
  shows "f = g"
proof -
  have "f mod 4 = g mod 4"
    using assms(2) by (simp only: bit_offset_eq mult_cancel_right) simp
  then show ?thesis
    using assms(1) by (metis div_mult_mod_eq)
qed

lemma three_is_mask: "(3::8 word) = mask 2"
  by (simp add: mask_eq_exp_minus_1)

lemma state_bits_of_mask: "state_bits_of st AND 3 = state_bits_of st"
  by (cases st) simp_all

lemma two_bit_write_read:
  fixes b c :: "8 word"
  assumes "k \<in> {0, 2, 4, 6}" "c AND 3 = c"
  shows "drop_bit k ((b AND NOT (push_bit k 3)) OR push_bit k c) AND 3 = c"
proof -
  have "drop_bit k ((b AND NOT (push_bit k 3)) OR push_bit k c) AND 3 = c AND 3"
    unfolding three_is_mask
    apply (rule bit_word_eqI)
    using assms(1) apply (auto simp: bit_simps)
    done
  then show ?thesis using assms(2) by simp
qed

lemma two_bit_write_other:
  fixes b c :: "8 word"
  assumes "k \<in> {0, 2, 4, 6}" "j \<in> {0, 2, 4, 6}" "j \<noteq> k" "c AND 3 = c"
  shows "drop_bit j ((b AND NOT (push_bit k 3)) OR push_bit k c) AND 3 = drop_bit j b AND 3"
proof -
  have c: "\<And>n. bit c n \<Longrightarrow> n < 2"
    by (metis assms(4) bit_and_iff bit_mask_iff three_is_mask)
  show ?thesis
    unfolding three_is_mask
    apply (rule bit_word_eqI)
    using assms(1,2,3) apply (auto simp: bit_simps dest!: c)
    done
qed

lemma get_state_set_state_same:
  assumes "bitmap q = bitmap p"
  shows "get_state (set_state m p f st) q f = Inr st"
proof -
  have "drop_bit ((f * 2) mod 8)
          ((m (bitmap p + f div 4) AND NOT (push_bit ((f * 2) mod 8) 3))
             OR push_bit ((f * 2) mod 8) (state_bits_of st)) AND 3 = state_bits_of st"
    by (rule two_bit_write_read [OF bit_offset_cases state_bits_of_mask])
  then show ?thesis
    using assms by (cases st) (simp_all add: get_state_def set_state_def Let_def)
qed

lemma get_state_set_state_other:
  assumes "bitmap q = bitmap p" "g \<noteq> f"
  shows "get_state (set_state m p f st) q g = get_state m q g"
proof (cases "g div 4 = f div 4")
  case False
  then show ?thesis
    using assms(1) by (simp add: get_state_def set_state_def Let_def)
next
  case True
  then have "(g * 2) mod 8 \<noteq> (f * 2) mod 8"
    using assms(2) bit_offset_inj by blast
  then have "drop_bit ((g * 2) mod 8)
          ((m (bitmap p + f div 4) AND NOT (push_bit ((f * 2) mod 8) 3))
             OR push_bit ((f * 2) mod 8) (state_bits_of st)) AND 3
        = drop_bit ((g * 2) mod 8) (m (bitmap p + f div 4)) AND 3"
    by (intro two_bit_write_other bit_offset_cases state_bits_of_mask)
  then show ?thesis
    using assms(1) True by (simp add: get_state_def set_state_def Let_def)
qed

lemma set_state_elsewhere:
  "a \<noteq> bitmap p + f div 4 \<Longrightarrow> set_state m p f st a = m a"
  by (simp add: set_state_def Let_def)

text \<open>
  Claim C3 (the codec addresses byte \<open>i / 4\<close>, bit offset \<open>(i % 4) * 2\<close>, for the
  index \<open>i\<close> relative to the pool). The codec is handed the absolute frame number by every caller and indexes
  the bitmap with it, although the constructor asserts that the bitmap fits on a
  single page. For the pool of the four frames from 16384 that hosts its own bitmap,
  the state of its first frame (relative index 0) is not kept in byte 0 of the info
  frame 16384, which stays zero: it is kept 4096 bytes further, in the first byte of
  frame 16385, and the next \<^verbatim>\<open>get_frames(1)\<close> hands that very frame out.
\<close>

theorem bitmap_leaves_info_frame:
  "\<exists>s1 s2.
     ContFramePool blank_system 1 16384 4 0 = Inr s1 \<and>
     needed_info_frames 4 = 1 \<and>
     info_frame_no (pools s1 1) = 16384 \<and>
     bitmap (pools s1 1) = 16384 * FRAME_SIZE \<and>
     get_state (memory s1) (pools s1 1) 16384 = Inr HoS \<and>
     memory s1 (bitmap (pools s1 1) + 0 div 4) = 0 \<and>
     bitmap (pools s1 1) + 16384 div 4 = 16385 * FRAME_SIZE \<and>
     memory s1 (16385 * FRAME_SIZE) = 2 \<and>
     pool_get_frames s1 1 1 = Inr (16385, s2) \<and>
     memory s2 (16385 * FRAME_SIZE) = 10"
  by (simp add: code_defs blank_system_def blank_pool_def pool_get_frames_def)

section \<open>Construction\<close>

text \<open>
  Claim C4 (after construction every frame of the range that is not info storage
  reads Free). The loop that marks the frames free runs before \<^verbatim>\<open>bitmap\<close> is
  assigned, so it writes through the value the member held before, not into the bitmap
  the pool uses afterwards. With zero-filled object storage and a stale byte 4 at the
  address 16385 (the code of a used frame for frame 5), the pool of the frames 4 to 7
  that hosts its own bitmap reports frame 5 as used right after construction; its only
  info frame is frame 4.
\<close>

theorem constructor_keeps_stale_states:
  "\<exists>s1.
     ContFramePool (blank_system\<lparr>memory := (\<lambda>_. 0)(16385 := 4)\<rparr>) 1 4 4 0 = Inr s1 \<and>
     info_frame_no (pools s1 1) = 4 \<and>
     needed_info_frames 4 = 1 \<and>
     bitmap (pools s1 1) = 4 * FRAME_SIZE \<and>
     map (get_state (memory s1) (pools s1 1)) [4, 5, 6, 7] =
       [Inr HoS, Inr Used, Inr Free, Inr Free]"
  by (simp add: code_defs blank_system_def blank_pool_def)

text \<open>
  Claim C8 (self-hosting marks frame \<open>base\<close> as head). By the same defect as for
  C4 the search for the info frame reads the memory as it was found. With the stale
  byte 1 at the address 16385 (frame 4 used), constructing the pool of the frames 4 to
  7 with info frame 0 leaves frame 4 used and makes frame 5 the head.
\<close>

theorem bootstrap_head_misplaced:
  "\<exists>s1.
     ContFramePool (blank_system\<lparr>memory := (\<lambda>_. 0)(16385 := 1)\<rparr>) 1 4 4 0 = Inr s1 \<and>
     base_frame_no (pools s1 1) = 4 \<and>
     needed_info_frames 4 = 1 \<and>
     nFreeFrames (pools s1 1) = 3 \<and>
     map (get_state (memory s1) (pools s1 1)) [4, 5, 6, 7] =
       [Inr Used, Inr HoS, Inr Free, Inr Free]"
  by (simp add: code_defs blank_system_def blank_pool_def)

section \<open>Reservation\<close>

text \<open>
  Claim C6 (\<^verbatim>\<open>mark_inaccessible\<close> fails unless the frames lie in the pool's range
  and are free). The assertion on the range tests the upper end only. For the pool of
  the frames 8 to 11, reserving the two frames 0 and 1, which lie below its base,
  succeeds: it writes into the bitmap memory in front of the pool's own states and
  lowers the count of free frames from 3 to 1.
\<close>

theorem mark_inaccessible_below_base:
  "\<exists>s1 m' p'.
     ContFramePool blank_system 1 8 4 0 = Inr s1 \<and>
     base_frame_no (pools s1 1) = 8 \<and>
     nFreeFrames (pools s1 1) = 3 \<and>
     mark_inaccessible (memory s1) (pools s1 1) 0 2 = Inr (m', p') \<and>
     nFreeFrames p' = 1 \<and>
     map (get_state m' p') [0, 1] = [Inr HoS, Inr Used]"
  by (simp add: code_defs blank_system_def blank_pool_def)

section \<open>Conservation\<close>

text \<open>
  Claim C5 (the free count plus the lengths of the allocated runs is the number of
  frames). By the defect behind C2, releasing a free frame raises the count without
  freeing anything: in the pool of four frames with the info run at frame 0, after
  \<^verbatim>\<open>release_frames(1)\<close> the count of free frames is 4 and one frame is allocated.
\<close>

theorem conservation_broken_by_release:
  "\<exists>s1 s2.
     ContFramePool blank_system 1 0 4 0 = Inr s1 \<and>
     nFreeFrames (pools s1 1) + length (allocated_frames (memory s1) (pools s1 1)) = 4 \<and>
     release_frames s1 1 = Some (Inr s2) \<and>
     nframes (pools s2 1) = 4 \<and>
     nFreeFrames (pools s2 1) = 4 \<and>
     allocated_frames (memory s2) (pools s2 1) = [0]"
  by (simp add: code_defs blank_system_def blank_pool_def allocated_frames_def
      frame_numbers_def upt_conv_Cons)

section \<open>Effect of the loops\<close>

lemma get_state_nFreeFrames [simp]:
  "get_state m (p\<lparr>nFreeFrames := x\<rparr>) f = get_state m p f"
  by (simp add: get_state_def)

lemma set_state_nFreeFrames [simp]:
  "set_state m (p\<lparr>nFreeFrames := x\<rparr>) f st = set_state m p f st"
  by (simp add: set_state_def)

lemma bitmap_bytes_mono:
  "lo' \<le> lo \<Longrightarrow> hi \<le> hi' \<Longrightarrow> bitmap_bytes p lo hi \<subseteq> bitmap_bytes p lo' hi'"
  by (auto simp: bitmap_bytes_def)

lemma set_state_outside:
  "a \<notin> bitmap_bytes p lo hi \<Longrightarrow> lo \<le> f \<Longrightarrow> f < hi \<Longrightarrow> set_state m p f st a = m a"
  by (rule set_state_elsewhere) (auto simp: bitmap_bytes_def)

lemma unsigned_minus_le:
  "b \<le> a \<Longrightarrow> unsigned_minus a b = a - b"
  by (simp add: unsigned_minus_def)

lemma mark_loop_free:
  assumes "\<forall>f. cur \<le> f \<and> f < e \<longrightarrow> get_state m p f = Inr Free"
  shows "\<exists>m'. mark_loop m p cur e = Inr m' \<and>
           (\<forall>f. get_state m' p f = (if cur \<le> f \<and> f < e then Inr Used else get_state m p f)) \<and>
           (\<forall>a. a \<notin> bitmap_bytes p cur e \<longrightarrow> m' a = m a)"
  using assms
proof (induction m p cur e rule: mark_loop.induct)
  case (1 m p cur e)
  show ?case
  proof (cases "cur < e")
    case False
    then show ?thesis by (auto simp: mark_loop.simps)
  next
    case True
    have here: "get_state m p cur = Inr Free"
      using "1.prems" True by simp
    let ?m1 = "set_state m p cur Used"
    have rest: "\<forall>f. cur + 1 \<le> f \<and> f < e \<longrightarrow> get_state ?m1 p f = Inr Free"
      using "1.prems" by (simp add: get_state_set_state_other)
    from "1.IH" [OF True here _ rest]
    obtain m' where m': "mark_loop ?m1 p (cur + 1) e = Inr m'"
      and st: "\<forall>f. get_state m' p f = (if cur + 1 \<le> f \<and> f < e then Inr Used else get_state ?m1 p f)"
      and fr: "\<forall>a. a \<notin> bitmap_bytes p (cur + 1) e \<longrightarrow> m' a = ?m1 a"
      by auto
    have "mark_loop m p cur e = Inr m'"
      using True here m' by (subst mark_loop.simps) simp
    moreover have "get_state m' p f = (if cur \<le> f \<and> f < e then Inr Used else get_state m p f)" for f
    proof (cases "f = cur")
      case True
      then show ?thesis using st \<open>cur < e\<close> by (simp add: get_state_set_state_same)
    next
      case False
      then show ?thesis using st by (auto simp: get_state_set_state_other)
    qed
    moreover have "m' a = m a" if "a \<notin> bitmap_bytes p cur e" for a
    proof -
      have "a \<notin> bitmap_bytes p (cur + 1) e"
        using that bitmap_bytes_mono [of cur "cur + 1" e e p] by auto
      then have "m' a = ?m1 a" using fr by simp
      also have "\<dots> = m a"
        using that True by (intro set_state_outside [of _ _ cur e]) simp_all
      finally show ?thesis .
    qed
    ultimately show ?thesis by blast
  qed
qed

lemma mark_inaccessible_free:
  assumes "\<forall>f. b \<le> f \<and> f < b + n \<longrightarrow> get_state m p f = Inr Free"
    and "0 < n" and "b + n \<le> base_frame_no p + nframes p"
  shows "\<exists>m'. mark_inaccessible m p b n =
                Inr (m', p\<lparr>nFreeFrames := unsigned_minus (nFreeFrames p) n\<rparr>) \<and>
           (\<forall>f. get_state m' p f =
                  (if f = b then Inr HoS else if b < f \<and> f < b + n then Inr Used
                   else get_state m p f)) \<and>
           (\<forall>a. a \<notin> bitmap_bytes p b (b + n) \<longrightarrow> m' a = m a)"
proof -
  let ?m1 = "set_state m p b HoS"
  have head: "get_state m p b = Inr Free"
    using assms(1,2) by simp
  have "\<forall>f. b + 1 \<le> f \<and> f < b + n \<longrightarrow> get_state ?m1 p f = Inr Free"
    using assms(1) by (simp add: get_state_set_state_other)
  from mark_loop_free [OF this]
  obtain m' where m': "mark_loop ?m1 p (b + 1) (b + n) = Inr m'"
    and st: "\<forall>f. get_state m' p f = (if b + 1 \<le> f \<and> f < b + n then Inr Used else get_state ?m1 p f)"
    and fr: "\<forall>a. a \<notin> bitmap_bytes p (b + 1) (b + n) \<longrightarrow> m' a = ?m1 a"
    by auto
  have "mark_inaccessible m p b n =
          Inr (m', p\<lparr>nFreeFrames := unsigned_minus (nFreeFrames p) n\<rparr>)"
    using head assms(3) m' by (simp add: mark_inaccessible_def)
  moreover have "get_state m' p f =
       (if f = b then Inr HoS else if b < f \<and> f < b + n then Inr Used else get_state m p f)" for f
  proof (cases "f = b")
    case True
    then show ?thesis using st by (simp add: get_state_set_state_same)
  next
    case False
    then show ?thesis using st by (auto simp: get_state_set_state_other)
  qed
  moreover have "m' a = m a" if "a \<notin> bitmap_bytes p b (b + n)" for a
  proof -
    have "a \<notin> bitmap_bytes p (b + 1) (b + n)"
      using that bitmap_bytes_mono [of b "b + 1" "b + n" "b + n" p] by auto
    then have "m' a = ?m1 a" using fr by simp
    also have "\<dots> = m a"
      using that assms(2) by (intro set_state_outside [of _ _ b "b + n"]) simp_all
    finally show ?thesis .
  qed
  ultimately show ?thesis by blast
qed

lemma release_loop_run:
  assumes "\<forall>f. cur \<le> f \<and> f < e \<longrightarrow> get_state m p f = Inr Used"
    and "cur \<le> e" and "e \<le> base_frame_no p + nframes p"
    and "e = base_frame_no p + nframes p \<or> get_state m p e = Inr Free \<or> get_state m p e = Inr HoS"
  shows "\<exists>m'. release_loop m p cur = Inr (m', p\<lparr>nFreeFrames := nFreeFrames p + (e - cur)\<rparr>) \<and>
           (\<forall>f. get_state m' p f = (if cur \<le> f \<and> f < e then Inr Free else get_state m p f)) \<and>
           (\<forall>a. a \<notin> bitmap_bytes p cur e \<longrightarrow> m' a = m a)"
  using assms
proof (induction "e - cur" arbitrary: m p cur)
  case 0
  then have "cur = e" by simp
  then have "release_loop m p cur = Inr (m, p)"
    using "0.prems"(4) by (subst release_loop.simps) auto
  then show ?case using \<open>cur = e\<close> by auto
next
  case (Suc k)
  then have lt: "cur < e" by simp
  then have here: "get_state m p cur = Inr Used"
    using Suc.prems(1) by simp
  let ?m1 = "set_state m p cur Free"
  let ?p1 = "p\<lparr>nFreeFrames := nFreeFrames p + 1\<rparr>"
  have k: "k = e - (cur + 1)" using Suc.hyps(2) by simp
  have rest: "\<forall>f. cur + 1 \<le> f \<and> f < e \<longrightarrow> get_state ?m1 ?p1 f = Inr Used"
    using Suc.prems(1) by (simp add: get_state_set_state_other)
  have stop: "e = base_frame_no ?p1 + nframes ?p1 \<or> get_state ?m1 ?p1 e = Inr Free
                \<or> get_state ?m1 ?p1 e = Inr HoS"
    using Suc.prems(4) lt by (simp add: get_state_set_state_other)
  from Suc.hyps(1) [OF k rest _ _ stop] lt Suc.prems(3)
  obtain m' where m': "release_loop ?m1 ?p1 (cur + 1) =
        Inr (m', ?p1\<lparr>nFreeFrames := nFreeFrames ?p1 + (e - (cur + 1))\<rparr>)"
    and st: "\<forall>f. get_state m' ?p1 f = (if cur + 1 \<le> f \<and> f < e then Inr Free else get_state ?m1 ?p1 f)"
    and fr: "\<forall>a. a \<notin> bitmap_bytes ?p1 (cur + 1) e \<longrightarrow> m' a = ?m1 a"
    by auto
  have "release_loop m p cur = Inr (m', p\<lparr>nFreeFrames := nFreeFrames p + (e - cur)\<rparr>)"
    using lt here m' Suc.prems(3) by (subst release_loop.simps) simp
  moreover have "get_state m' p f = (if cur \<le> f \<and> f < e then Inr Free else get_state m p f)" for f
  proof (cases "f = cur")
    case True
    then show ?thesis using st lt by (simp add: get_state_set_state_same)
  next
    case False
    then show ?thesis using st by (auto simp: get_state_set_state_other)
  qed
  moreover have "m' a = m a" if "a \<notin> bitmap_bytes p cur e" for a
  proof -
    have "a \<notin> bitmap_bytes p (cur + 1) e"
      using that bitmap_bytes_mono [of cur "cur + 1" e e p] by auto
    then have "m' a = ?m1 a" using fr by (simp add: bitmap_bytes_def)
    also have "\<dots> = m a"
      using that lt by (intro set_state_outside [of _ _ cur e]) simp_all
    finally show ?thesis .
  qed
  ultimately show ?case by blast
qed

text \<open>Without knowing where the run ends: the loop returns when the states it reads
  are valid, changes only the count of the pool, and writes only to the bitmap bytes
  of the frames from where it starts to the end of the pool.\<close>

lemma release_loop_frame:
  assumes "\<forall>f. cur \<le> f \<and> f < base_frame_no p + nframes p \<longrightarrow> get_state m p f \<noteq> Inl InvalidState"
  shows "\<exists>m' k. release_loop m p cur = Inr (m', p\<lparr>nFreeFrames := nFreeFrames p + k\<rparr>) \<and>
           (\<forall>f. f < cur \<longrightarrow> get_state m' p f = get_state m p f) \<and>
           (\<forall>a. a \<notin> bitmap_bytes p cur (base_frame_no p + nframes p) \<longrightarrow> m' a = m a)"
  using assms
proof (induction m p cur rule: release_loop.induct)
  case (1 m p cur)
  let ?e = "base_frame_no p + nframes p"
  show ?case
  proof (cases "cur < ?e")
    case False
    then have "release_loop m p cur = Inr (m, p\<lparr>nFreeFrames := nFreeFrames p + 0\<rparr>)"
      by (subst release_loop.simps) simp
    then show ?thesis by blast
  next
    case True
    then obtain st where st: "get_state m p cur = Inr st"
      using "1.prems" by (cases "get_state m p cur") (auto simp: get_state_def Let_def split: if_splits)
    show ?thesis
    proof (cases "st = Used")
      case False
      then have "release_loop m p cur = Inr (m, p\<lparr>nFreeFrames := nFreeFrames p + 0\<rparr>)"
        using True st by (subst release_loop.simps) simp
      then show ?thesis by blast
    next
      case Used: True
      let ?m1 = "set_state m p cur Free"
      let ?p1 = "p\<lparr>nFreeFrames := nFreeFrames p + 1\<rparr>"
      have valid: "\<forall>f. cur + 1 \<le> f \<and> f < base_frame_no ?p1 + nframes ?p1 \<longrightarrow>
                     get_state ?m1 ?p1 f \<noteq> Inl InvalidState"
        using "1.prems" by (simp add: get_state_set_state_other)
      from "1.IH" [OF True st Used valid]
      obtain m' k where m': "release_loop ?m1 ?p1 (cur + 1) =
            Inr (m', ?p1\<lparr>nFreeFrames := nFreeFrames ?p1 + k\<rparr>)"
        and lo: "\<forall>f. f < cur + 1 \<longrightarrow> get_state m' ?p1 f = get_state ?m1 ?p1 f"
        and fr: "\<forall>a. a \<notin> bitmap_bytes ?p1 (cur + 1) (base_frame_no ?p1 + nframes ?p1) \<longrightarrow> m' a = ?m1 a"
        by auto
      have "release_loop m p cur = Inr (m', p\<lparr>nFreeFrames := nFreeFrames p + (k + 1)\<rparr>)"
        using True st Used m' by (subst release_loop.simps) simp
      moreover have "get_state m' p f = get_state m p f" if "f < cur" for f
        using lo that by (simp add: get_state_set_state_other)
      moreover have "m' a = m a" if "a \<notin> bitmap_bytes p cur ?e" for a
      proof -
        have "a \<notin> bitmap_bytes p (cur + 1) ?e"
          using that bitmap_bytes_mono [of cur "cur + 1" ?e ?e p] by auto
        then have "m' a = ?m1 a" using fr by (simp add: bitmap_bytes_def)
        also have "\<dots> = m a"
          using that True by (intro set_state_outside [of _ _ cur ?e]) simp_all
        finally show ?thesis .
      qed
      ultimately show ?thesis by blast
    qed
  qed
qed

lemma release_walk_owner:
  assumes "find_owner k s f cur = Some c"
  shows "release_walk s f cur =
           Some (case release_in_pool (memory s) (pools s c) f of
                   Inl e \<Rightarrow> Inl e
                 | Inr (m, p) \<Rightarrow> Inr (s\<lparr>memory := m, pools := (pools s)(c := p)\<rparr>))"
  using assms
proof (induction k arbitrary: cur)
  case 0
  then show ?case by simp
next
  case (Suc k)
  then obtain d where d: "cur = Some d"
    by (cases cur) auto
  show ?case
  proof (cases "in_pool (pools s d) f")
    case True
    then have "d = c" using Suc.prems d by simp
    then show ?thesis
      using True d by (subst release_walk.simps) (simp add: in_pool_def)
  next
    case False
    then have "find_owner k s f (next_pool (pools s d)) = Some c"
      using Suc.prems d by simp
    from Suc.IH [OF this] show ?thesis
      using False d by (subst release_walk.simps) (auto simp: in_pool_def)
  qed
qed

lemma find_owner_cong:
  assumes "\<And>x. base_frame_no (pools s' x) = base_frame_no (pools s x)"
    and "\<And>x. nframes (pools s' x) = nframes (pools s x)"
    and "\<And>x. next_pool (pools s' x) = next_pool (pools s x)"
  shows "find_owner k s' f cur = find_owner k s f cur"
  by (induction k arbitrary: cur) (auto simp: in_pool_def assms split: option.splits)

lemma free_run_iff:
  "free_run m p h n \<longleftrightarrow>
     base_frame_no p \<le> h \<and> h + n \<le> base_frame_no p + nframes p \<and>
     (\<forall>f. h \<le> f \<and> f < h + n \<longrightarrow> get_state m p f = Inr Free)"
  by (auto simp: free_run_def list_all_iff)

lemma states_valid_iff:
  "states_valid m p \<longleftrightarrow>
     (\<forall>f. base_frame_no p \<le> f \<and> f < base_frame_no p + nframes p \<longrightarrow>
          get_state m p f \<noteq> Inl InvalidState)"
  by (auto simp: states_valid_def frame_numbers_def list_all_iff)

lemma get_state_error:
  "get_state m p f = Inl e \<Longrightarrow> e = InvalidState"
  by (auto simp: get_state_def Let_def split: if_splits)

lemma get_frames_loop_result:
  assumes "0 < n"
    and "base_frame_no p \<le> cur"
    and "found < n"
    and "found \<le> cur - base_frame_no p"
    and "0 < found \<longrightarrow> first = cur - found"
    and "\<forall>f. cur - found \<le> f \<and> f < cur \<longrightarrow> get_state m p f = Inr Free"
    and "\<forall>h'. h' < cur - found \<longrightarrow> \<not> free_run m p h' n"
  shows "case get_frames_loop m p n cur first found of
           Inr (h, m', p') \<Rightarrow>
             free_run m p h n \<and> (\<forall>h'. h' < h \<longrightarrow> \<not> free_run m p h' n) \<and>
             mark_inaccessible m p h n = Inr (m', p')
         | Inl e \<Rightarrow>
             (e = NoContiguousRegion \<and> (\<forall>h. \<not> free_run m p h n)) \<or>
             (e = InvalidState \<and> \<not> states_valid m p)"
  using assms
proof (induction m p n cur first found rule: get_frames_loop.induct)
  case (1 m p n cur first found)
  let ?e = "base_frame_no p + nframes p"
  let ?start = "cur - found"
  have start_le: "?start \<le> cur" by simp
  have start_base: "base_frame_no p \<le> ?start"
    using "1.prems"(2,4) by simp
  show ?case
  proof (cases "cur < ?e")
    case False
    have "\<not> free_run m p h n" for h
    proof (cases "h < ?start")
      case True
      then show ?thesis using "1.prems"(7) by simp
    next
      case False
      then have "cur < h + n" using "1.prems"(3) by simp
      then show ?thesis using \<open>\<not> cur < ?e\<close> by (simp add: free_run_iff)
    qed
    moreover have "get_frames_loop m p n cur first found = Inl NoContiguousRegion"
      using False by (subst get_frames_loop.simps) simp
    ultimately show ?thesis by simp
  next
    case in_range: True
    show ?thesis
    proof (cases "get_state m p cur")
      case (Inl e)
      then have "e = InvalidState" by (rule get_state_error)
      moreover have "\<not> states_valid m p"
        using Inl in_range "1.prems"(2) \<open>e = InvalidState\<close> by (auto simp: states_valid_iff)
      moreover have "get_frames_loop m p n cur first found = Inl e"
        using in_range Inl by (subst get_frames_loop.simps) simp
      ultimately show ?thesis by simp
    next
      case (Inr st)
      show ?thesis
      proof (cases "st = Free")
        case not_free: False
        have no_run: "\<forall>h'. h' < cur + 1 - 0 \<longrightarrow> \<not> free_run m p h' n"
        proof (intro allI impI)
          fix h' assume h': "h' < cur + 1 - 0"
          show "\<not> free_run m p h' n"
          proof (cases "h' < ?start")
            case True
            then show ?thesis using "1.prems"(7) by simp
          next
            case False
            then have "h' \<le> cur \<and> cur < h' + n"
              using h' "1.prems"(3) by simp
            then show ?thesis
              using Inr not_free by (auto simp: free_run_iff)
          qed
        qed
        have step: "get_frames_loop m p n cur first found = get_frames_loop m p n (cur + 1) first 0"
          using in_range Inr not_free by (subst get_frames_loop.simps) simp
        have "case get_frames_loop m p n (cur + 1) first 0 of
           Inr (h, m', p') \<Rightarrow>
             free_run m p h n \<and> (\<forall>h'. h' < h \<longrightarrow> \<not> free_run m p h' n) \<and>
             mark_inaccessible m p h n = Inr (m', p')
         | Inl e \<Rightarrow>
             (e = NoContiguousRegion \<and> (\<forall>h. \<not> free_run m p h n)) \<or>
             (e = InvalidState \<and> \<not> states_valid m p)"
          using "1.prems"(1,2) no_run
          by (intro "1.IH"(2) [OF in_range Inr not_free]) auto
        then show ?thesis by (simp only: step)
      next
        case is_free: True
        let ?first' = "if found = 0 then cur else first"
        have first': "?first' = ?start"
          using "1.prems"(5) by simp
        have frees: "\<forall>f. ?start \<le> f \<and> f < cur + 1 \<longrightarrow> get_state m p f = Inr Free"
        proof (intro allI impI)
          fix f assume "?start \<le> f \<and> f < cur + 1"
          then show "get_state m p f = Inr Free"
            using "1.prems"(6) Inr is_free by (cases "f = cur") simp_all
        qed
        show ?thesis
        proof (cases "found + 1 = n")
          case full: True
          have n_eq: "?start + n = cur + 1"
            using full "1.prems"(4) by simp
          have run: "free_run m p ?start n"
            using frees start_base in_range n_eq by (simp add: free_run_iff)
          have "\<forall>f. ?start \<le> f \<and> f < ?start + n \<longrightarrow> get_state m p f = Inr Free"
            using frees n_eq by simp
          from mark_inaccessible_free [OF this "1.prems"(1)] in_range n_eq
          obtain m' where m': "mark_inaccessible m p ?start n =
              Inr (m', p\<lparr>nFreeFrames := unsigned_minus (nFreeFrames p) n\<rparr>)"
            by auto
          have "get_frames_loop m p n cur first found =
                  Inr (?start, m', p\<lparr>nFreeFrames := unsigned_minus (nFreeFrames p) n\<rparr>)"
            using in_range Inr is_free full m' first'
            by (subst get_frames_loop.simps) (simp add: Let_def)
          then show ?thesis
            using run m' "1.prems"(7) by simp
        next
          case short: False
          have step: "get_frames_loop m p n cur first found =
                        get_frames_loop m p n (cur + 1) ?first' (found + 1)"
            using in_range Inr is_free short by (subst get_frames_loop.simps) (simp add: Let_def)
          have "case get_frames_loop m p n (cur + 1) ?first' (found + 1) of
             Inr (h, m', p') \<Rightarrow>
               free_run m p h n \<and> (\<forall>h'. h' < h \<longrightarrow> \<not> free_run m p h' n) \<and>
               mark_inaccessible m p h n = Inr (m', p')
           | Inl e \<Rightarrow>
               (e = NoContiguousRegion \<and> (\<forall>h. \<not> free_run m p h n)) \<or>
               (e = InvalidState \<and> \<not> states_valid m p)"
          proof (rule "1.IH"(1) [OF in_range Inr is_free refl refl short])
            show "0 < n" by (rule "1.prems"(1))
            show "base_frame_no p \<le> cur + 1" using "1.prems"(2) by simp
            show "found + 1 < n" using short "1.prems"(3) by simp
            show "found + 1 \<le> cur + 1 - base_frame_no p" using "1.prems"(2,4) by simp
            show "0 < found + 1 \<longrightarrow> ?first' = cur + 1 - (found + 1)" using first' by simp
            show "\<forall>f. cur + 1 - (found + 1) \<le> f \<and> f < cur + 1 \<longrightarrow> get_state m p f = Inr Free"
              using frees by simp
            show "\<forall>h'. h' < cur + 1 - (found + 1) \<longrightarrow> \<not> free_run m p h' n"
              using "1.prems"(7) by simp
          qed
          then show ?thesis by (simp only: step)
        qed
      qed
    qed
  qed
qed

section \<open>First fit\<close>





section \<open>Allocation followed by release\<close>

lemma runs_headed_iff:
  "runs_headed m p \<longleftrightarrow>
     (\<forall>f. base_frame_no p \<le> f \<and> f < base_frame_no p + nframes p \<and>
          get_state m p f = Inr Used \<longrightarrow>
          base_frame_no p < f \<and>
          (get_state m p (f - 1) = Inr HoS \<or> get_state m p (f - 1) = Inr Used))"
  by (auto simp: runs_headed_def frame_numbers_def list_all_iff)

lemma get_frames_loop_zero:
  "get_frames_loop m p 0 cur first found \<noteq> Inr r"
proof (induction m p "0::nat" cur first found rule: get_frames_loop.induct)
  case (1 m p cur first found)
  show ?case
  proof (cases "cur < base_frame_no p + nframes p")
    case False
    then show ?thesis by (subst get_frames_loop.simps) simp
  next
    case True
    show ?thesis
    proof (cases "get_state m p cur")
      case (Inl e)
      then show ?thesis using True by (subst get_frames_loop.simps) simp
    next
      case (Inr st)
      show ?thesis
      proof (cases "st = Free")
        case True
        from "1.hyps"(1) [OF \<open>cur < base_frame_no p + nframes p\<close> Inr True refl refl]
        show ?thesis
          using \<open>cur < base_frame_no p + nframes p\<close> Inr True
          by (subst get_frames_loop.simps) (simp add: Let_def)
      next
        case False
        from "1.hyps"(2) [OF \<open>cur < base_frame_no p + nframes p\<close> Inr False]
        show ?thesis
          using \<open>cur < base_frame_no p + nframes p\<close> Inr False
          by (subst get_frames_loop.simps) simp
      qed
    qed
  qed
qed

text \<open>What a successful \<^verbatim>\<open>get_frames\<close> has done.\<close>

lemma get_frames_Inr:
  assumes "get_frames m p n = Inr (h, m', p')"
  shows "0 < n \<and> n \<le> nFreeFrames p \<and> free_run m p h n \<and>
         mark_inaccessible m p h n = Inr (m', p')"
proof -
  from assms have guard: "n \<le> nFreeFrames p" "n \<le> nframes p"
    and loop: "get_frames_loop m p n (base_frame_no p) 0 0 = Inr (h, m', p')"
    by (auto simp: get_frames_def split: if_splits)
  have pos: "0 < n"
    using loop get_frames_loop_zero [of m p "base_frame_no p" 0 0] by (cases n) auto
  have "case get_frames_loop m p n (base_frame_no p) 0 0 of
           Inr (h, m', p') \<Rightarrow>
             free_run m p h n \<and> (\<forall>h'. h' < h \<longrightarrow> \<not> free_run m p h' n) \<and>
             mark_inaccessible m p h n = Inr (m', p')
         | Inl e \<Rightarrow>
             (e = NoContiguousRegion \<and> (\<forall>h. \<not> free_run m p h n)) \<or>
             (e = InvalidState \<and> \<not> states_valid m p)"
    using pos by (intro get_frames_loop_result) (auto simp: free_run_iff)
  then show ?thesis
    using loop guard pos by simp
qed

lemma release_in_pool_after_mark:
  assumes run: "free_run m p h n" and pos: "0 < n" and le: "n \<le> nFreeFrames p"
    and mark: "mark_inaccessible m p h n = Inr (m', p')"
    and valid: "states_valid m p" and headed: "runs_headed m p"
  shows "\<exists>m2. release_in_pool m' p' h = Inr (m2, p) \<and>
           (\<forall>f. get_state m2 p f = get_state m p f)"
proof -
  let ?e = "base_frame_no p + nframes p"
  from run have frees: "\<forall>f. h \<le> f \<and> f < h + n \<longrightarrow> get_state m p f = Inr Free"
    and base: "base_frame_no p \<le> h" and fits: "h + n \<le> ?e"
    by (simp_all add: free_run_iff)
  from mark_inaccessible_free [OF frees pos fits] mark le
  have p': "p' = p\<lparr>nFreeFrames := nFreeFrames p - n\<rparr>"
    and st': "\<forall>f. get_state m' p f =
                  (if f = h then Inr HoS else if h < f \<and> f < h + n then Inr Used
                   else get_state m p f)"
    by (auto simp: unsigned_minus_le)
  let ?m1 = "set_state m' p h Free"
  let ?p1 = "p\<lparr>nFreeFrames := nFreeFrames p - n + 1\<rparr>"
  have st1: "get_state ?m1 ?p1 f =
               (if f = h then Inr Free else if h < f \<and> f < h + n then Inr Used
                else get_state m p f)" for f
    using st' by (cases "f = h") (simp_all add: get_state_set_state_same get_state_set_state_other)
  have used: "\<forall>f. h + 1 \<le> f \<and> f < h + n \<longrightarrow> get_state ?m1 ?p1 f = Inr Used"
    using st1 by simp
  have stop: "h + n = base_frame_no ?p1 + nframes ?p1 \<or>
              get_state ?m1 ?p1 (h + n) = Inr Free \<or> get_state ?m1 ?p1 (h + n) = Inr HoS"
  proof (cases "h + n = ?e")
    case True
    then show ?thesis by simp
  next
    case False
    then have inside: "base_frame_no p \<le> h + n \<and> h + n < ?e"
      using base fits by simp
    have before: "get_state m p (h + n - 1) = Inr Free"
      using frees pos by simp
    have "get_state m p (h + n) \<noteq> Inl InvalidState"
      using valid inside by (simp add: states_valid_iff)
    moreover have "get_state m p (h + n) \<noteq> Inr Used"
      using headed inside before by (auto simp: runs_headed_iff)
    ultimately have "get_state m p (h + n) = Inr Free \<or> get_state m p (h + n) = Inr HoS"
    proof (cases "get_state m p (h + n)")
      case (Inl e)
      then show ?thesis
        using get_state_error [OF Inl] \<open>get_state m p (h + n) \<noteq> Inl InvalidState\<close> by simp
    next
      case (Inr st)
      then show ?thesis
        using \<open>get_state m p (h + n) \<noteq> Inr Used\<close> by (cases st) simp_all
    qed
    then show ?thesis using st1 [of "h + n"] pos by simp
  qed
  from release_loop_run [OF used _ _ stop] pos fits
  obtain m2 where m2: "release_loop ?m1 ?p1 (h + 1) =
        Inr (m2, ?p1\<lparr>nFreeFrames := nFreeFrames ?p1 + (h + n - (h + 1))\<rparr>)"
    and st2: "\<forall>f. get_state m2 ?p1 f =
                 (if h + 1 \<le> f \<and> f < h + n then Inr Free else get_state ?m1 ?p1 f)"
    by auto
  have count: "?p1\<lparr>nFreeFrames := nFreeFrames ?p1 + (h + n - (h + 1))\<rparr> = p"
    using pos le by simp
  have "release_in_pool m' p' h = Inr (m2, p)"
    using m2 count p' by (simp add: release_in_pool_def)
  moreover have "get_state m2 p f = get_state m p f" for f
    using st2 st1 [of f] frees pos by auto
  ultimately show ?thesis by blast
qed

text \<open>In the pool that the walk of \<^verbatim>\<open>release_frames\<close> finds for the head, a
  release that follows the allocation undoes it, provided the state before the
  allocation satisfies the invariants of the data model.\<close>

lemma round_trip_in_listed_pool:
  assumes "pool_get_frames s c n = Inr (h, s1)"
    and "find_owner k s h (frame_pools_list s) = Some c"
    and "states_valid (memory s) (pools s c)"
    and "runs_headed (memory s) (pools s c)"
  shows "\<exists>s2. release_frames s1 h = Some (Inr s2) \<and>
           list_all (\<lambda>f. get_state (memory s2) (pools s2 c) f = Inr Free) [h ..< h + n] \<and>
           nFreeFrames (pools s2 c) = nFreeFrames (pools s c) \<and>
           (\<forall>f. get_state (memory s2) (pools s2 c) f = get_state (memory s) (pools s c) f)"
proof -
  let ?m = "memory s" and ?p = "pools s c"
  from assms(1) obtain m' p' where got: "get_frames ?m ?p n = Inr (h, m', p')"
    and s1: "s1 = s\<lparr>memory := m', pools := (pools s)(c := p')\<rparr>"
    by (auto simp: pool_get_frames_def split: sum.splits)
  from get_frames_Inr [OF got]
  have pos: "0 < n" and le: "n \<le> nFreeFrames ?p" and run: "free_run ?m ?p h n"
    and mark: "mark_inaccessible ?m ?p h n = Inr (m', p')"
    by simp_all
  from mark_inaccessible_free [of h n ?m ?p] run pos mark le
  have p': "p' = ?p\<lparr>nFreeFrames := nFreeFrames ?p - n\<rparr>"
    by (auto simp: free_run_iff unsigned_minus_le)
  from release_in_pool_after_mark [OF run pos le mark assms(3,4)]
  obtain m2 where rel: "release_in_pool m' p' h = Inr (m2, ?p)"
    and same: "\<forall>f. get_state m2 ?p f = get_state ?m ?p f"
    by auto
  have "find_owner k s1 h (frame_pools_list s) = find_owner k s h (frame_pools_list s)"
    by (rule find_owner_cong) (simp_all add: s1 p')
  moreover have "frame_pools_list s1 = frame_pools_list s"
    by (simp add: s1)
  ultimately have owner: "find_owner k s1 h (frame_pools_list s1) = Some c"
    using assms(2) by simp
  let ?s2 = "s1\<lparr>memory := m2, pools := (pools s1)(c := ?p)\<rparr>"
  have "release_frames s1 h = Some (Inr ?s2)"
    using release_walk_owner [OF owner] rel s1 by (simp add: release_frames_def)
  moreover have "list_all (\<lambda>f. get_state (memory ?s2) (pools ?s2 c) f = Inr Free) [h ..< h + n]"
    using same run by (simp add: free_run_iff list_all_iff)
  moreover have "nFreeFrames (pools ?s2 c) = nFreeFrames ?p" by simp
  moreover have "\<forall>f. get_state (memory ?s2) (pools ?s2 c) f = get_state ?m ?p f"
    using same by simp
  ultimately show ?thesis by blast
qed

text \<open>
  Claim C9 (round trip: releasing the head that \<^verbatim>\<open>get_frames(n)\<close> returned frees
  the run and restores the count of free frames). By the defect behind C1 the second
  of three pools is not on the list that \<^verbatim>\<open>release_frames\<close> walks. After the
  three constructions on the blank machine the second pool holds the frames 4 to 7
  with frame 4 the head of its info run; its \<^verbatim>\<open>get_frames(2)\<close> returns 5, and
  \<^verbatim>\<open>release_frames(5)\<close> then fails because no pool on the list owns frame 5. The
  frames 5 and 6 stay allocated and the count of free frames stays at 1 instead of
  going back to 3.
\<close>

theorem round_trip_fails_for_unlisted_pool:
  "\<exists>s1 s2 s3 s4.
     ContFramePool blank_system 1 0 4 0 = Inr s1 \<and>
     ContFramePool s1 2 4 4 0 = Inr s2 \<and>
     ContFramePool s2 3 8 4 0 = Inr s3 \<and>
     map (get_state (memory s3) (pools s3 2)) [4, 5, 6, 7] =
       [Inr HoS, Inr Free, Inr Free, Inr Free] \<and>
     nFreeFrames (pools s3 2) = 3 \<and>
     pool_get_frames s3 2 2 = Inr (5, s4) \<and>
     map (get_state (memory s4) (pools s4 2)) [4, 5, 6, 7] =
       [Inr HoS, Inr HoS, Inr Used, Inr Free] \<and>
     nFreeFrames (pools s4 2) = 1 \<and>
     release_frames s4 5 = Some (Inl UnknownFrame)"
  by (simp add: code_defs blank_system_def blank_pool_def pool_get_frames_def)

section \<open>Release with two pools\<close>

lemma bitmap_bytes_disjoint:
  assumes "bitmap p = i * FRAME_SIZE" "bitmap q = j * FRAME_SIZE"
    and "hi \<le> lo'" and "lo' mod 4 = 0" and "hi' \<le> 4 * FRAME_SIZE"
  shows "bitmap_bytes p lo hi \<inter> bitmap_bytes q lo' hi' = {}"
proof -
  have False if "f < hi" "lo' \<le> g" "g < hi'"
    "i * FRAME_SIZE + f div 4 = j * FRAME_SIZE + g div 4" for f g
  proof -
    have g: "g div 4 < FRAME_SIZE" using that(3) assms(5) by simp
    have "f < lo'" using that(1) assms(3) by simp
    then have "f div 4 < lo' div 4"
      using assms(4) by (metis div_less_iff_less_mult mod_0_imp_dvd dvd_div_mult_self zero_less_numeral)
    moreover have "lo' div 4 \<le> g div 4" using that(2) by (rule div_le_mono)
    ultimately have fg: "f div 4 < g div 4" by simp
    then have f: "f div 4 < FRAME_SIZE" using g by simp
    have "(i * FRAME_SIZE + f div 4) mod FRAME_SIZE = f div 4"
      using f by simp
    moreover have "(j * FRAME_SIZE + g div 4) mod FRAME_SIZE = g div 4"
      using g by simp
    ultimately show False using that(4) fg by simp
  qed
  then show ?thesis
    using assms(1,2) by (auto simp: bitmap_bytes_def)
qed

text \<open>
  Claim C10 (ownership resolution). With the pool of the frames \<open>[0,100)\<close> at the
  head of the list and the pool of the frames \<open>[100,200)\<close> next, both with their
  bitmaps at the start of their info frames, and frame 150 a head, \<^verbatim>\<open>release_frames(150)\<close>
  returns; the first pool object, the bytes of its bitmap and the states it reports are
  unchanged; memory changes only in the bitmap bytes of the frames 150 to 199 of the
  second pool, whose only changed member is the count of free frames, which grows.
\<close>

theorem release_frames_two_pools:
  assumes "frame_pools_list s = Some a" and "a \<noteq> b"
    and "base_frame_no (pools s a) = 0" and "nframes (pools s a) = 100"
    and "next_pool (pools s a) = Some b"
    and "base_frame_no (pools s b) = 100" and "nframes (pools s b) = 100"
    and "bitmap (pools s a) = info_frame_no (pools s a) * FRAME_SIZE"
    and "bitmap (pools s b) = info_frame_no (pools s b) * FRAME_SIZE"
    and "get_state (memory s) (pools s b) 150 = Inr HoS"
    and "states_valid (memory s) (pools s b)"
  shows "\<exists>s' k. release_frames s 150 = Some (Inr s') \<and>
           pools s' a = pools s a \<and>
           (\<forall>x \<in> bitmap_bytes (pools s a) 0 100. memory s' x = memory s x) \<and>
           (\<forall>f. f < 100 \<longrightarrow>
                get_state (memory s') (pools s' a) f = get_state (memory s) (pools s a) f) \<and>
           (\<forall>x. x \<notin> bitmap_bytes (pools s b) 150 200 \<longrightarrow> memory s' x = memory s x) \<and>
           0 < k \<and>
           pools s' = (pools s)(b := (pools s b)\<lparr>nFreeFrames := nFreeFrames (pools s b) + k\<rparr>) \<and>
           frame_pools_list s' = frame_pools_list s \<and>
           get_state (memory s') (pools s' b) 150 = Inr Free"
proof -
  let ?m = "memory s" and ?pa = "pools s a" and ?pb = "pools s b"
  let ?m1 = "set_state ?m ?pb 150 Free"
  let ?p1 = "?pb\<lparr>nFreeFrames := nFreeFrames ?pb + 1\<rparr>"
  have owner: "find_owner 2 s 150 (frame_pools_list s) = Some b"
    using assms(1,3-7) by (simp add: find_owner_numeral in_pool_def)
  have valid1: "\<forall>f. 151 \<le> f \<and> f < base_frame_no ?p1 + nframes ?p1 \<longrightarrow>
                  get_state ?m1 ?p1 f \<noteq> Inl InvalidState"
    using assms(6,7,11) by (simp add: states_valid_iff get_state_set_state_other)
  from release_loop_frame [OF valid1]
  obtain m' k where loop: "release_loop ?m1 ?p1 151 = Inr (m', ?p1\<lparr>nFreeFrames := nFreeFrames ?p1 + k\<rparr>)"
    and low: "\<forall>f. f < 151 \<longrightarrow> get_state m' ?p1 f = get_state ?m1 ?p1 f"
    and frame: "\<forall>x. x \<notin> bitmap_bytes ?p1 151 (base_frame_no ?p1 + nframes ?p1) \<longrightarrow> m' x = ?m1 x"
    by auto
  let ?pb' = "?pb\<lparr>nFreeFrames := nFreeFrames ?pb + (k + 1)\<rparr>"
  let ?s' = "s\<lparr>memory := m', pools := (pools s)(b := ?pb')\<rparr>"
  have rel: "release_in_pool ?m ?pb 150 = Inr (m', ?pb')"
    using loop by (simp add: release_in_pool_def)
  have res: "release_frames s 150 = Some (Inr ?s')"
    using release_walk_owner [OF owner] rel by (simp add: release_frames_def)
  have outside: "m' x = ?m x" if "x \<notin> bitmap_bytes ?pb 150 200" for x
  proof -
    have "x \<notin> bitmap_bytes ?pb 151 200"
      using that bitmap_bytes_mono [of 150 151 200 200 ?pb] by auto
    then have "m' x = ?m1 x"
      using frame assms(6,7) by (simp add: bitmap_bytes_def)
    also have "\<dots> = ?m x"
      using that by (intro set_state_outside [of _ _ 150 200]) simp_all
    finally show ?thesis .
  qed
  have disjoint: "bitmap_bytes ?pa 0 100 \<inter> bitmap_bytes ?pb 150 200 = {}"
  proof -
    have "bitmap_bytes ?pa 0 100 \<inter> bitmap_bytes ?pb 100 200 = {}"
      using assms(8,9) by (rule bitmap_bytes_disjoint) (simp_all add: FRAME_SIZE_def)
    then show ?thesis
      using bitmap_bytes_mono [of 100 150 200 200 ?pb] by auto
  qed
  have bytes_a: "m' x = ?m x" if "x \<in> bitmap_bytes ?pa 0 100" for x
    using that disjoint outside by auto
  have states_a: "get_state m' ?pa f = get_state ?m ?pa f" if "f < 100" for f
  proof -
    have "bitmap ?pa + f div 4 \<in> bitmap_bytes ?pa 0 100"
      using that by (auto simp: bitmap_bytes_def)
    then show ?thesis
      using bytes_a by (simp add: get_state_def)
  qed
  have freed: "get_state m' ?pb 150 = Inr Free"
    using low by (simp add: get_state_set_state_same)
  show ?thesis
  proof (intro exI conjI)
    show "release_frames s 150 = Some (Inr ?s')" by (rule res)
    show "pools ?s' a = pools s a" using assms(2) by simp
    show "\<forall>x \<in> bitmap_bytes (pools s a) 0 100. memory ?s' x = memory s x"
      using bytes_a by simp
    show "\<forall>f. f < 100 \<longrightarrow>
            get_state (memory ?s') (pools ?s' a) f = get_state (memory s) (pools s a) f"
      using states_a assms(2) by simp
    show "\<forall>x. x \<notin> bitmap_bytes (pools s b) 150 200 \<longrightarrow> memory ?s' x = memory s x"
      using outside by simp
    show "0 < k + 1" by simp
    show "pools ?s' = (pools s)(b := (pools s b)\<lparr>nFreeFrames := nFreeFrames (pools s b) + (k + 1)\<rparr>)"
      by simp
    show "frame_pools_list ?s' = frame_pools_list s" by simp
    show "get_state (memory ?s') (pools ?s' b) 150 = Inr Free"
      using freed by simp
  qed
qed

theorem release_frames_two_pools_witness:
  "frame_pools_list two_pools = Some 1 \<and>
   next_pool (pools two_pools 1) = Some 2 \<and>
   get_state (memory two_pools) (pools two_pools 2) 150 = Inr HoS \<and>
   states_valid (memory two_pools) (pools two_pools 2) \<and>
   (\<exists>s'. release_frames two_pools 150 = Some (Inr s') \<and>
      pools s' 1 = pools two_pools 1 \<and>
      get_state (memory s') (pools s' 1) 0 = Inr HoS \<and>
      nFreeFrames (pools two_pools 2) = 97 \<and>
      nFreeFrames (pools s' 2) = 99 \<and>
      get_state (memory s') (pools s' 2) 150 = Inr Free \<and>
      get_state (memory s') (pools s' 2) 151 = Inr Free)"
proof -
  let ?s = two_pools
  have head: "get_state (memory ?s) (pools ?s 2) 150 = Inr HoS"
    by (simp add: two_pools_def get_state_def)
  have valid: "states_valid (memory ?s) (pools ?s 2)"
    by (simp add: two_pools_def states_valid_def frame_numbers_def get_state_def upt_conv_Cons)
  have "\<exists>s' k. release_frames ?s 150 = Some (Inr s') \<and>
           pools s' 1 = pools ?s 1 \<and>
           (\<forall>x \<in> bitmap_bytes (pools ?s 1) 0 100. memory s' x = memory ?s x) \<and>
           (\<forall>f. f < 100 \<longrightarrow>
                get_state (memory s') (pools s' 1) f = get_state (memory ?s) (pools ?s 1) f) \<and>
           (\<forall>x. x \<notin> bitmap_bytes (pools ?s 2) 150 200 \<longrightarrow> memory s' x = memory ?s x) \<and>
           0 < k \<and>
           pools s' = (pools ?s)(2 := (pools ?s 2)\<lparr>nFreeFrames := nFreeFrames (pools ?s 2) + k\<rparr>) \<and>
           frame_pools_list s' = frame_pools_list ?s \<and>
           get_state (memory s') (pools s' 2) 150 = Inr Free"
    using head valid
    by (intro release_frames_two_pools) (simp_all add: two_pools_def FRAME_SIZE_def)
  then obtain s' where rel: "release_frames ?s 150 = Some (Inr s')"
    and first: "pools s' 1 = pools ?s 1"
    and states: "\<forall>f. f < 100 \<longrightarrow>
                get_state (memory s') (pools s' 1) f = get_state (memory ?s) (pools ?s 1) f"
    and freed: "get_state (memory s') (pools s' 2) 150 = Inr Free"
    by blast
  have "\<exists>s2. release_frames ?s 150 = Some (Inr s2) \<and> nFreeFrames (pools s2 2) = 99 \<and>
          get_state (memory s2) (pools s2 2) 151 = Inr Free"
    by (simp add: two_pools_def blank_pool_def release_frames_def release_walk.simps
        release_in_pool_def release_loop.simps get_state_def set_state_def Let_def)
  then have count: "nFreeFrames (pools s' 2) = 99"
    and next_free: "get_state (memory s') (pools s' 2) 151 = Inr Free"
    using rel by auto
  have "get_state (memory ?s) (pools ?s 1) 0 = Inr HoS"
    by (simp add: two_pools_def get_state_def)
  then have "get_state (memory s') (pools s' 1) 0 = Inr HoS"
    using states by simp
  moreover have "frame_pools_list ?s = Some 1" "next_pool (pools ?s 1) = Some 2"
    "nFreeFrames (pools ?s 2) = 97"
    by (simp_all add: two_pools_def)
  ultimately show ?thesis
    using head valid rel first count freed next_free by blast
qed

end
